theory Spec2Isabelle
  imports Complex_Main "HOL-Library.AList"
begin

section \<open>Library behaviour the spiders rely on\<close>

text \<open>
  Both spiders call \<^verbatim>\<open>urllib.parse.urlparse\<close> and \<^verbatim>\<open>urljoin\<close>. Their results are
  taken as parameters: \<open>urlparse\<close> gives the pair (netloc, path) of a URL and \<open>urljoin\<close> the
  absolute URL of a reference; \<open>None\<close> stands for the \<^verbatim>\<open>ValueError\<close> both can raise.
\<close>

record urllib =
  urlparse :: "string \<Rightarrow> (string \<times> string) option"
  urljoin :: "string \<Rightarrow> string \<Rightarrow> string option"

datatype py_error = ZeroDivisionError

text \<open>Python's \<^verbatim>\<open>str\<close> of a non-negative integer, as used by the f-strings.\<close>

definition digits10 :: string where
  "digits10 = ''0123456789''"

function str_nat :: "nat \<Rightarrow> string" where
  "str_nat n = (if n < 10 then [digits10 ! n] else str_nat (n div 10) @ [digits10 ! (n mod 10)])"
  by pat_completeness auto
termination
  by (relation "measure id") auto

declare str_nat.simps [simp del]

text \<open>Reading a decimal numeral back, to tell the results of \<open>str_nat\<close> apart.\<close>

definition digit_val :: "char \<Rightarrow> nat" where
  "digit_val c = of_char c - 48"

definition nat_of_str :: "string \<Rightarrow> nat" where
  "nat_of_str s = foldl (\<lambda>a c. 10 * a + digit_val c) 0 s"

text \<open>A defaultdict(int) or Counter whose items are enumerated: insertion-ordered pairs.\<close>

definition dd_get :: "('k \<times> nat) list \<Rightarrow> 'k \<Rightarrow> nat" where
  "dd_get d k = (case map_of d k of None \<Rightarrow> 0 | Some v \<Rightarrow> v)"

definition dd_incr :: "'k \<Rightarrow> ('k \<times> nat) list \<Rightarrow> ('k \<times> nat) list" where
  "dd_incr k d = AList.update k (dd_get d k + 1) d"

section \<open>Census mode: spiders/count\_spider.py\<close>

text \<open>
  The state of a \<^verbatim>\<open>CountSpider\<close>. \<open>url_index\<close> and \<open>level_counts\<close> are dictionaries whose
  items are read back in \<^verbatim>\<open>spider_closed\<close>, so they are insertion-ordered association
  lists; \<open>url_levels\<close> is a defaultdict(int) that is only looked up, hence a function with
  default 0. Clock reads (\<^verbatim>\<open>start_time\<close>, \<^verbatim>\<open>execution_time\<close>) and info logging are left out;
  the module calls \<^verbatim>\<open>time.time()\<close> without importing \<^verbatim>\<open>time\<close>, and the model takes the
  name to be bound.
\<close>

record count_spider =
  allowed_domain :: string
  url_counter :: "(string \<times> nat) list"
  found_urls :: "string set"
  url_index :: "(string \<times> nat) list"
  url_levels :: "string \<Rightarrow> nat"
  level_counts :: "(nat \<times> nat) list"
  current_index :: nat
  max_level_found :: nat
  finished :: bool
  stopped_reason :: "string option"

definition MAX_PAGES :: nat where
  "MAX_PAGES = 1000"

definition limit_message :: string where
  "limit_message = ''Reached maximum limit of '' @ str_nat MAX_PAGES @ '' pages''"

text \<open>\<^verbatim>\<open>CountSpider.__init__\<close> (lines 25-43); it fails when \<^verbatim>\<open>urlparse(url)\<close> raises.\<close>

definition CountSpider_init :: "urllib \<Rightarrow> string \<Rightarrow> count_spider option" where
  "CountSpider_init L u =
     (case urlparse L u of
        None \<Rightarrow> None
      | Some (netloc, p) \<Rightarrow> Some
          \<lparr> allowed_domain = netloc,
            url_counter = [],
            found_urls = {},
            url_index = [],
            url_levels = (\<lambda>_. 0)(u := 0),
            level_counts = AList.update 0 1 [],
            current_index = 1,
            max_level_found = 0,
            finished = False,
            stopped_reason = None \<rparr>)"

text \<open>
  The bookkeeping block that \<^verbatim>\<open>parse\<close> runs for a URL it has not seen, once for the page
  itself (lines 64-73) and once per new link (lines 90-99). \<open>Inl\<close> carries the state at the
  moment \<^verbatim>\<open>urlparse\<close> raises: the three updates before it have already happened.
\<close>

definition record_url :: "urllib \<Rightarrow> string \<Rightarrow> nat \<Rightarrow> count_spider \<Rightarrow> count_spider + count_spider" where
  "record_url L u lvl s =
     (let s1 = s\<lparr> found_urls := insert u (found_urls s),
                 url_index := AList.update u (current_index s) (url_index s),
                 current_index := current_index s + 1 \<rparr>
      in case urlparse L u of
           None \<Rightarrow> Inl s1
         | Some (netloc, p) \<Rightarrow> Inr
             (s1\<lparr> url_counter := dd_incr p (url_counter s1),
                  url_levels := (url_levels s1)(u := lvl),
                  level_counts := dd_incr lvl (level_counts s1),
                  max_level_found := max (max_level_found s1) lvl \<rparr>))"

text \<open>
  A fetched page as \<^verbatim>\<open>parse\<close> sees it: its URL and the result of
  \<^verbatim>\<open>response.css('a::attr(href)').getall()\<close>, \<open>None\<close> when the selector raises
  (a response that is not text).
\<close>

record response =
  url :: string
  hrefs :: "string list option"

type_synonym request = "string \<times> nat"

text \<open>
  The loop over the hrefs (lines 83-112). It returns the state and the requests yielded, each
  with the level bound in its callback. An exception inside the loop ends it (line 116);
  what was yielded before stays yielded.
\<close>

fun parse_links :: "urllib \<Rightarrow> string \<Rightarrow> nat \<Rightarrow> string list \<Rightarrow> count_spider \<Rightarrow> count_spider \<times> request list" where
  "parse_links L base next_level [] s = (s, [])"
| "parse_links L base next_level (href # rest) s =
     (case urljoin L base href of
        None \<Rightarrow> (s, [])
      | Some u \<Rightarrow>
          (case urlparse L u of
             None \<Rightarrow> (s, [])
           | Some (netloc, p) \<Rightarrow>
               if netloc = allowed_domain s \<and> u \<notin> found_urls s \<and> card (found_urls s) < MAX_PAGES
               then (case record_url L u next_level s of
                       Inl s1 \<Rightarrow> (s1, [])
                     | Inr s1 \<Rightarrow>
                         (let (s2, reqs) = parse_links L base next_level rest s1
                          in (s2, if card (found_urls s1) < MAX_PAGES
                                  then (u, next_level) # reqs else reqs)))
               else parse_links L base next_level rest s))"

text \<open>
  \<^verbatim>\<open>CountSpider.parse\<close> (lines 51-117): the new state, the requests yielded and the reason
  of the \<^verbatim>\<open>CloseSpider\<close> it raises, if any. An empty string is as false as \<^verbatim>\<open>None\<close> in
  \<^verbatim>\<open>if not self.stopped_reason\<close>.
\<close>

definition parse :: "urllib \<Rightarrow> response \<Rightarrow> nat \<Rightarrow> count_spider \<Rightarrow> count_spider \<times> request list \<times> string option" where
  "parse L r current_level s =
     (if card (found_urls s) \<ge> MAX_PAGES then
        (if stopped_reason s = None \<or> stopped_reason s = Some []
         then (s\<lparr> stopped_reason := Some limit_message \<rparr>, [], Some limit_message)
         else (s, [], None))
      else
        (case (if url r \<notin> found_urls s then record_url L (url r) current_level s else Inr s) of
           Inl s1 \<Rightarrow> (s1, [], None)
         | Inr s1 \<Rightarrow>
             if card (found_urls s1) < MAX_PAGES then
               (case hrefs r of
                  None \<Rightarrow> (s1, [], None)
                | Some hs \<Rightarrow>
                    (let (s2, reqs) = parse_links L (url r) (current_level + 1) hs s1
                     in (s2, reqs, None)))
             else (s1, [], None)))"

text \<open>
  \<^verbatim>\<open>CountSpider.spider_closed\<close> (lines 122-165): the statistics it hands to the crawler.
  Percentages are computed in exact arithmetic; the division raises for an empty
  \<open>found_urls\<close>, since \<open>level_counts\<close> is never empty. The ten most common paths are a
  view of \<open>url_counter\<close> and are left out.
\<close>

record level_stat =
  count :: nat
  percentage :: real

record url_info =
  index :: nat
  info_url :: string
  level :: nat

record spider_stats =
  total_unique_urls :: nat
  stats_url_counter :: "(string \<times> nat) list"
  max_level :: nat
  level_statistics :: "(string \<times> level_stat) list"
  ordered_urls :: "url_info list"
  reached_limit :: bool
  reason :: string

definition level_stats_of :: "count_spider \<Rightarrow> (string \<times> level_stat) list" where
  "level_stats_of s =
     map (\<lambda>(lvl, c). (str_nat lvl,
            \<lparr> count = c, percentage = (real c / real (card (found_urls s))) * 100 \<rparr>))
         (level_counts s)"

definition ordered_urls_of :: "count_spider \<Rightarrow> url_info list" where
  "ordered_urls_of s =
     map (\<lambda>(idx, u, lvl). \<lparr> index = idx, info_url = u, level = lvl \<rparr>)
         (sort_key fst (map (\<lambda>(u, idx). (idx, u, url_levels s u)) (url_index s)))"

definition spider_closed :: "count_spider \<Rightarrow> string \<Rightarrow> py_error + count_spider \<times> spider_stats option" where
  "spider_closed s rsn =
     (if finished s then Inr (s, None)
      else if level_counts s \<noteq> [] \<and> card (found_urls s) = 0 then Inl ZeroDivisionError
      else Inr (s\<lparr> finished := True \<rparr>, Some
             \<lparr> total_unique_urls = card (found_urls s),
               stats_url_counter = url_counter s,
               max_level = max_level_found s,
               level_statistics = level_stats_of s,
               ordered_urls = ordered_urls_of s,
               reached_limit = (card (found_urls s) \<ge> MAX_PAGES),
               reason = (case stopped_reason s of
                           None \<Rightarrow> rsn
                         | Some m \<Rightarrow> if m = [] then rsn else m) \<rparr>))"

subsection \<open>The crawl around the spider\<close>

text \<open>
  The engine that drives the callbacks is Scrapy's. Of it the model keeps the requests that
  were scheduled and not yet answered, the reason of a pending close, and the history of
  the requests the callbacks yielded. An event answers one outstanding request: with a
  response, which goes to \<^verbatim>\<open>parse\<close> at the level bound in the request, or with a failure,
  which goes to \<^verbatim>\<open>errback\<close> and only logs. Any outstanding request may be answered next,
  with any response (a redirect changes the URL), also while the spider is closing.
  A callback runs to its end before the next event.
\<close>

record census =
  spider :: count_spider
  pending :: "request list"
  closing :: "string option"
  issued :: "request list"

datatype event = Deliver nat response | Fail nat

definition remove_nth :: "nat \<Rightarrow> 'a list \<Rightarrow> 'a list" where
  "remove_nth i xs = take i xs @ drop (Suc i) xs"

fun census_step :: "urllib \<Rightarrow> event \<Rightarrow> census \<Rightarrow> census" where
  "census_step L (Fail i) c =
     (if i < length (pending c) then c\<lparr> pending := remove_nth i (pending c) \<rparr> else c)"
| "census_step L (Deliver i r) c =
     (if i < length (pending c) then
        (case parse L r (snd (pending c ! i)) (spider c) of
           (s', reqs, raised) \<Rightarrow>
             c\<lparr> spider := s',
                pending := remove_nth i (pending c) @ reqs,
                closing := (case closing c of None \<Rightarrow> raised | Some x \<Rightarrow> Some x),
                issued := issued c @ reqs \<rparr>)
      else c)"

definition census_start :: "urllib \<Rightarrow> string \<Rightarrow> census option" where
  "census_start L u =
     (case CountSpider_init L u of
        None \<Rightarrow> None
      | Some s \<Rightarrow> Some \<lparr> spider = s, pending = [(u, 0)], closing = None, issued = [] \<rparr>)"

definition census_run :: "urllib \<Rightarrow> event list \<Rightarrow> census \<Rightarrow> census" where
  "census_run L evs c = fold (census_step L) evs c"

text \<open>
  The spider is closed with the reason of the \<^verbatim>\<open>CloseSpider\<close> that was raised, and with
  \<^verbatim>\<open>'finished'\<close> when the engine runs out of requests.
\<close>

definition census_result :: "census \<Rightarrow> py_error + count_spider \<times> spider_stats option" where
  "census_result c =
     spider_closed (spider c) (case closing c of None \<Rightarrow> ''finished'' | Some x \<Rightarrow> x)"


definition census_crawl :: "urllib \<Rightarrow> string \<Rightarrow> event list \<Rightarrow> census option" where
  "census_crawl L seed evs = map_option (census_run L evs) (census_start L seed)"

subsection \<open>Invariants of the census crawl\<close>

text \<open>
  What every callback keeps true of the spider: the found URLs are finitely many and at
  most \<open>MAX_PAGES\<close>; \<open>url_index\<close> has exactly them as keys, each once, numbered from 1 in
  insertion order; \<open>stopped_reason\<close> is set only at the cap, to the limit message.
\<close>

definition census_inv :: "count_spider \<Rightarrow> bool" where
  "census_inv s \<longleftrightarrow>
     finite (found_urls s) \<and> card (found_urls s) \<le> MAX_PAGES \<and>
     fst ` set (url_index s) = found_urls s \<and>
     distinct (map fst (url_index s)) \<and>
     map snd (url_index s) = [1..<current_index s] \<and> 1 \<le> current_index s \<and>
     (stopped_reason s = None \<or>
      stopped_reason s = Some limit_message \<and> card (found_urls s) = MAX_PAGES)"

text \<open>The counts of all levels add up to one more than the number of found URLs.\<close>

definition counts_inv :: "count_spider \<Rightarrow> bool" where
  "counts_inv s \<longleftrightarrow> sum_list (map snd (level_counts s)) = card (found_urls s) + 1"

text \<open>
  What every event keeps true of the crawl started at \<open>seed\<close>: the requests yielded so far
  are for pairwise different URLs, all found, all on the allowed domain, and the engine is
  closing exactly when the spider has recorded its stop.
\<close>

definition crawl_inv :: "urllib \<Rightarrow> string \<Rightarrow> census \<Rightarrow> bool" where
  "crawl_inv L seed c \<longleftrightarrow>
     census_inv (spider c) \<and>
     distinct (map fst (issued c)) \<and>
     fst ` set (issued c) \<subseteq> found_urls (spider c) \<and>
     set (pending c) \<subseteq> insert (seed, 0) (set (issued c)) \<and>
     (\<exists>p. urlparse L seed = Some (allowed_domain (spider c), p)) \<and>
     (\<forall>q \<in> set (issued c). \<exists>p. urlparse L (fst q) = Some (allowed_domain (spider c), p)) \<and>
     closing c = stopped_reason (spider c)"

section \<open>Content mode: spiders/fast\_spider.py\<close>

text \<open>Python's \<^verbatim>\<open>a in b\<close> on strings, \<^verbatim>\<open>str.strip()\<close> and \<^verbatim>\<open>' '.join\<close>.\<close>

fun str_in :: "string \<Rightarrow> string \<Rightarrow> bool" where
  "str_in a [] = (a = [])"
| "str_in a (c # cs) = (take (length a) (c # cs) = a \<or> str_in a cs)"

definition is_space :: "char \<Rightarrow> bool" where
  "is_space c = (c \<in> set [CHR '' '', CHR 0x09, CHR 0x0A, CHR 0x0B, CHR 0x0C, CHR 0x0D])"

definition strip :: "string \<Rightarrow> string" where
  "strip s = rev (dropWhile is_space (rev (dropWhile is_space s)))"

fun join_space :: "string list \<Rightarrow> string" where
  "join_space [] = []"
| "join_space [x] = x"
| "join_space (x # y # ys) = x @ '' '' @ join_space (y # ys)"

text \<open>
  What the selectors give for a page: the text of the title and of the description, and for
  every heading, paragraph and anchor element the text nodes below it (for a heading also
  its tag, for an anchor its href attribute, if it has one). \<open>Inl e\<close> stands for a selector
  call that raises \<open>e\<close>, as on a response that is not text.
\<close>

record page =
  title_text :: string
  meta_text :: string
  heading_elems :: "(string \<times> string list) list"
  paragraph_elems :: "string list list"
  anchor_elems :: "(string option \<times> string list) list"

record fast_response =
  resp_url :: string
  body :: "string + page"

record content =
  content_url :: string
  title :: string
  meta_description :: string
  headings :: "(string \<times> string list) list"
  paragraphs :: "string list"
  links :: "(string \<times> string) list"

datatype log_entry =
    Extraction_error string string
  | Saving_error string string
  | Processing_error string string
  | Request_failed string

datatype index_item =
    Header string int
  | Entry nat string string string
  | Summary nat string

text \<open>
  The state of a \<^verbatim>\<open>FastSpider\<close> together with the files it owns: the page files of its
  output directory by name, the index file as its items and the error log as its entries.
  The directory is taken to be new. Of a page file the model keeps the content it was
  written from, not the layout of lines 109-136; the crawl time is left out.
\<close>

record fast_spider =
  allowed_domain_f :: string
  page_limit :: int
  pages_crawled :: nat
  visited_urls :: "string set"
  page_files :: "(string \<times> content) list"
  index_file :: "index_item list"
  error_log :: "log_entry list"

text \<open>\<^verbatim>\<open>FastSpider.__init__\<close> and \<^verbatim>\<open>setup_logging\<close> (lines 23-58).\<close>

definition FastSpider_init :: "urllib \<Rightarrow> string \<Rightarrow> int \<Rightarrow> fast_spider option" where
  "FastSpider_init L u limit =
     (case urlparse L u of
        None \<Rightarrow> None
      | Some (netloc, p) \<Rightarrow> Some
          \<lparr> allowed_domain_f = netloc,
            page_limit = limit,
            pages_crawled = 0,
            visited_urls = {},
            page_files = [],
            index_file = [Header u limit],
            error_log = [] \<rparr>)"

text \<open>\<^verbatim>\<open>extract_text\<close> (lines 60-62), on the text nodes of an element.\<close>

definition extract_text :: "string list \<Rightarrow> string" where
  "extract_text texts = join_space (map strip (filter (\<lambda>t. strip t \<noteq> []) texts))"

text \<open>The loops of \<^verbatim>\<open>extract_content\<close> over headings (lines 79-84) and anchors (lines 90-97).\<close>

fun group_headings :: "(string \<times> string list) list \<Rightarrow> (string \<times> string list) list \<Rightarrow> (string \<times> string list) list" where
  "group_headings [] acc = acc"
| "group_headings ((tag, texts) # rest) acc =
     group_headings rest
       (AList.update tag ((case map_of acc tag of None \<Rightarrow> [] | Some ts \<Rightarrow> ts) @ [extract_text texts]) acc)"

fun collect_links :: "urllib \<Rightarrow> string \<Rightarrow> (string option \<times> string list) list \<Rightarrow> (string \<times> string) list option" where
  "collect_links L base [] = Some []"
| "collect_links L base ((href, texts) # rest) =
     (case href of
        None \<Rightarrow> collect_links L base rest
      | Some h \<Rightarrow>
          if h \<noteq> [] \<and> extract_text texts \<noteq> [] then
            (case urljoin L base h of
               None \<Rightarrow> None
             | Some u \<Rightarrow> map_option (\<lambda>ls. (extract_text texts, u) # ls) (collect_links L base rest))
          else collect_links L base rest)"

text \<open>
  \<^verbatim>\<open>extract_content\<close> (lines 64-103): any exception is logged and turned into \<^verbatim>\<open>None\<close>.
  The text of an exception of the URL library is not known to the model.
\<close>

definition extract_content :: "urllib \<Rightarrow> fast_response \<Rightarrow> fast_spider \<Rightarrow> fast_spider \<times> content option" where
  "extract_content L r s =
     (case body r of
        Inl e \<Rightarrow> (s\<lparr> error_log := error_log s @ [Extraction_error (resp_url r) e] \<rparr>, None)
      | Inr pg \<Rightarrow>
          (case collect_links L (resp_url r) (anchor_elems pg) of
             None \<Rightarrow> (s\<lparr> error_log := error_log s @ [Extraction_error (resp_url r) ''ValueError''] \<rparr>, None)
           | Some ls \<Rightarrow> (s, Some
               \<lparr> content_url = resp_url r,
                 title = strip (title_text pg),
                 meta_description = strip (meta_text pg),
                 headings = group_headings (heading_elems pg) [],
                 paragraphs = filter (\<lambda>t. t \<noteq> []) (map extract_text (paragraph_elems pg)),
                 links = ls \<rparr>)))"

text \<open>
  The file system as a callback finds it: whether opening the page file and whether appending
  to the index file raise, and with what.
\<close>

record disk =
  save_error :: "string option"
  index_error :: "string option"

text \<open>\<^verbatim>\<open>save_content\<close> (lines 105-139): a failure is logged and swallowed.\<close>

definition save_content :: "content \<Rightarrow> string \<Rightarrow> disk \<Rightarrow> fast_spider \<Rightarrow> fast_spider" where
  "save_content c filename d s =
     (case save_error d of
        None \<Rightarrow> s\<lparr> page_files := AList.update filename c (page_files s) \<rparr>
      | Some e \<Rightarrow> s\<lparr> error_log := error_log s @ [Saving_error filename e] \<rparr>)"

text \<open>
  The loop over the links of a page (lines 173-182): the URLs requested, and whether
  \<^verbatim>\<open>urlparse\<close> raised, which ends the loop. \<^verbatim>\<open>and\<close> evaluates \<^verbatim>\<open>urlparse\<close> only for
  a URL that is not visited.
\<close>

fun follow_links :: "urllib \<Rightarrow> fast_spider \<Rightarrow> (string \<times> string) list \<Rightarrow> string list \<times> bool" where
  "follow_links L s [] = ([], False)"
| "follow_links L s ((text, href) # rest) =
     (if href \<notin> visited_urls s then
        (case urlparse L href of
           None \<Rightarrow> ([], True)
         | Some (netloc, p) \<Rightarrow>
             if str_in (allowed_domain_f s) netloc
             then (let (reqs, raised) = follow_links L s rest in (href # reqs, raised))
             else follow_links L s rest)
      else follow_links L s rest)"

definition page_name :: "nat \<Rightarrow> string" where
  "page_name n = ''page_'' @ str_nat n @ ''.txt''"

text \<open>
  \<^verbatim>\<open>FastSpider.parse\<close> (lines 141-185): the new state, the URLs requested and the reason
  passed to \<^verbatim>\<open>close_spider\<close>, if it is called.
\<close>

definition FastSpider_parse :: "urllib \<Rightarrow> fast_response \<Rightarrow> disk \<Rightarrow> fast_spider \<Rightarrow> fast_spider \<times> string list \<times> string option" where
  "FastSpider_parse L r d s =
     (if int (pages_crawled s) \<ge> page_limit s then (s, [], Some ''Reached page limit'')
      else if resp_url r \<in> visited_urls s then (s, [], None)
      else
        (case extract_content L r s of
           (s1, None) \<Rightarrow> (s1, [], None)
         | (s1, Some c) \<Rightarrow>
             (let filename = page_name (pages_crawled s1 + 1);
                  s2 = save_content c filename d s1
              in case index_error d of
                   Some e \<Rightarrow>
                     (s2\<lparr> error_log := error_log s2 @ [Processing_error (resp_url r) e] \<rparr>, [], None)
                 | None \<Rightarrow>
                     (let s3 = s2\<lparr> index_file := index_file s2 @
                                      [Entry (pages_crawled s2 + 1) (title c) (resp_url r) filename],
                                    visited_urls := insert (resp_url r) (visited_urls s2),
                                    pages_crawled := pages_crawled s2 + 1 \<rparr>
                      in if int (pages_crawled s3) < page_limit s3 then
                           (case follow_links L s3 (links c) of
                              (reqs, raised) \<Rightarrow>
                                (if raised
                                 then s3\<lparr> error_log := error_log s3 @
                                            [Processing_error (resp_url r) ''ValueError''] \<rparr>
                                 else s3,
                                 reqs, None))
                         else (s3, [], None)))))"

text \<open>
  \<^verbatim>\<open>errback\<close> (lines 187-189) and \<^verbatim>\<open>closed\<close> (lines 191-205), whose append to the
  index file is taken to succeed.
\<close>

definition errback :: "string \<Rightarrow> fast_spider \<Rightarrow> fast_spider" where
  "errback failure s = s\<lparr> error_log := error_log s @ [Request_failed failure] \<rparr>"

definition closed :: "string \<Rightarrow> fast_spider \<Rightarrow> fast_spider" where
  "closed rsn s = s\<lparr> index_file := index_file s @ [Summary (pages_crawled s) rsn] \<rparr>"

subsection \<open>The crawl around the spider\<close>

text \<open>
  As in census mode: the outstanding requests, the reason of the first call of
  \<^verbatim>\<open>close_spider\<close>, and the history of the requests yielded. An event answers one
  outstanding request with a response, or with a failure that goes to \<^verbatim>\<open>errback\<close>.
\<close>

record content_crawl =
  fspider :: fast_spider
  fpending :: "string list"
  fclosing :: "string option"
  fissued :: "string list"

datatype fevent = FDeliver nat fast_response disk | FFail nat string

fun content_step :: "urllib \<Rightarrow> fevent \<Rightarrow> content_crawl \<Rightarrow> content_crawl" where
  "content_step L (FFail i failure) c =
     (if i < length (fpending c)
      then c\<lparr> fspider := errback failure (fspider c), fpending := remove_nth i (fpending c) \<rparr>
      else c)"
| "content_step L (FDeliver i r d) c =
     (if i < length (fpending c) then
        (case FastSpider_parse L r d (fspider c) of
           (s', reqs, close) \<Rightarrow>
             c\<lparr> fspider := s',
                fpending := remove_nth i (fpending c) @ reqs,
                fclosing := (case fclosing c of None \<Rightarrow> close | Some x \<Rightarrow> Some x),
                fissued := fissued c @ reqs \<rparr>)
      else c)"

definition content_start :: "urllib \<Rightarrow> string \<Rightarrow> int \<Rightarrow> content_crawl option" where
  "content_start L u limit =
     (case FastSpider_init L u limit of
        None \<Rightarrow> None
      | Some s \<Rightarrow> Some \<lparr> fspider = s, fpending = [u], fclosing = None, fissued = [] \<rparr>)"

definition content_run :: "urllib \<Rightarrow> string \<Rightarrow> int \<Rightarrow> fevent list \<Rightarrow> content_crawl option" where
  "content_run L u limit evs = map_option (fold (content_step L) evs) (content_start L u limit)"

definition content_reason :: "content_crawl \<Rightarrow> string" where
  "content_reason c = (case fclosing c of None \<Rightarrow> ''finished'' | Some x \<Rightarrow> x)"

definition content_result :: "content_crawl \<Rightarrow> fast_spider" where
  "content_result c = closed (content_reason c) (fspider c)"

text \<open>
  Whether, in the course of the events \<open>evs\<close> from \<open>c\<close>, a response was handed to
  \<^verbatim>\<open>parse\<close> when the page count had already reached the page limit.
\<close>

fun late_response :: "urllib \<Rightarrow> fevent list \<Rightarrow> content_crawl \<Rightarrow> bool" where
  "late_response L [] c = False"
| "late_response L (FFail i failure # es) c = late_response L es (content_step L (FFail i failure) c)"
| "late_response L (FDeliver i r d # es) c =
     (i < length (fpending c) \<and> page_limit (fspider c) \<le> int (pages_crawled (fspider c)) \<or>
      late_response L es (content_step L (FDeliver i r d) c))"

text \<open>An event in which no file operation fails.\<close>

fun disk_ok :: "fevent \<Rightarrow> bool" where
  "disk_ok (FDeliver i r d) = (save_error d = None \<and> index_error d = None)"
| "disk_ok (FFail i failure) = True"

subsection \<open>Invariants of the content crawl\<close>

text \<open>The entries of the index file: number, URL and file name of each page.\<close>

fun entries :: "index_item list \<Rightarrow> (nat \<times> string \<times> string) list" where
  "entries [] = []"
| "entries (Entry n t u f # rest) = (n, u, f) # entries rest"
| "entries (Header u l # rest) = entries rest"
| "entries (Summary n r # rest) = entries rest"

text \<open>
  What every event keeps true of the content crawl started at \<open>seed\<close> with \<open>limit\<close>: the
  page count stays within the limit, a close was requested only at the limit and with the
  one reason, and every URL requested has the allowed domain inside its host.
\<close>

definition fast_inv :: "urllib \<Rightarrow> string \<Rightarrow> int \<Rightarrow> content_crawl \<Rightarrow> bool" where
  "fast_inv L seed limit c \<longleftrightarrow>
     page_limit (fspider c) = limit \<and>
     int (pages_crawled (fspider c)) \<le> max 0 limit \<and>
     (fclosing c = None \<or>
      fclosing c = Some ''Reached page limit'' \<and> limit \<le> int (pages_crawled (fspider c))) \<and>
     (\<exists>p. urlparse L seed = Some (allowed_domain_f (fspider c), p)) \<and>
     (\<forall>u \<in> set (fissued c). \<exists>netloc p. urlparse L u = Some (netloc, p) \<and>
                                  str_in (allowed_domain_f (fspider c)) netloc) \<and>
     set (fpending c) \<subseteq> insert seed (set (fissued c))"

text \<open>
  What holds of the files as long as no file operation fails: the page files are
  \<open>page_1.txt\<close> to \<open>page_N.txt\<close> for \<open>N\<close> pages crawled, the index lists them in this
  order with their URLs, and these URLs are pairwise different and are the visited ones.
\<close>

definition files_inv :: "fast_spider \<Rightarrow> bool" where
  "files_inv s \<longleftrightarrow>
     map fst (page_files s) = map page_name [1..<Suc (pages_crawled s)] \<and>
     entries (index_file s) =
       map (\<lambda>(k, f, c). (k, content_url c, f)) (zip [1..<Suc (pages_crawled s)] (page_files s)) \<and>
     distinct (map (\<lambda>(f, c). content_url c) (page_files s)) \<and>
     set (map (\<lambda>(f, c). content_url c) (page_files s)) = visited_urls s"

text \<open>The state after lines 156-167 of \<^verbatim>\<open>parse\<close> for a page whose content is \<open>c\<close>.\<close>

definition page_stored :: "content \<Rightarrow> fast_response \<Rightarrow> disk \<Rightarrow> fast_spider \<Rightarrow> fast_spider" where
  "page_stored c r d s =
     (save_content c (page_name (pages_crawled s + 1)) d s)
        \<lparr> index_file := index_file (save_content c (page_name (pages_crawled s + 1)) d s) @
             [Entry (pages_crawled s + 1) (title c) (resp_url r) (page_name (pages_crawled s + 1))],
          visited_urls := insert (resp_url r) (visited_urls s),
          pages_crawled := pages_crawled s + 1 \<rparr>"

section \<open>Concrete sites\<close>

text \<open>
  A library instance for evaluating the model: it splits \<^verbatim>\<open>scheme://netloc/path\<close> the way
  \<^verbatim>\<open>urlparse\<close> does for absolute URLs without parameters, query or fragment, and joins
  an absolute href to itself, as \<^verbatim>\<open>urljoin\<close> does.
\<close>

fun after_scheme :: "string \<Rightarrow> string" where
  "after_scheme (a # b # c # rest) =
     (if [a, b, c] = ''://'' then rest else after_scheme (b # c # rest))"
| "after_scheme _ = []"

definition plain_urllib :: urllib where
  "plain_urllib =
     \<lparr> urlparse = (\<lambda>u. Some (takeWhile (\<lambda>c. c \<noteq> CHR ''/'') (after_scheme u),
                               dropWhile (\<lambda>c. c \<noteq> CHR ''/'') (after_scheme u))),
       urljoin = (\<lambda>base href. Some href) \<rparr>"







text \<open>The sum of the percentages over all levels of a result.\<close>

definition percent_total :: "spider_stats \<Rightarrow> real" where
  "percent_total st = sum_list (map (\<lambda>(k, ls). percentage ls) (level_statistics st))"











text \<open>
  Content mode: a disk without failures, a home page whose four links go twice to one page
  of the site, to a host that merely contains the seed's host, and to a foreign host; a crawl
  of it with limit 5 in which the second page is answered twice and the third is not text;
  the crawls of the home page with limit 1 and with limit 2, where a third response arrives;
  a crawl in which the first page file cannot be written; and the crawl of a seed that is
  not text.
\<close>

definition good_disk :: disk where
  "good_disk = \<lparr> save_error = None, index_error = None \<rparr>"

definition two_links_page :: page where
  "two_links_page = \<lparr> title_text = '' Home '', meta_text = [],
       heading_elems = [(''h1'', [''Welcome''])],
       paragraph_elems = [[''Hello'']],
       anchor_elems = [(Some ''http://example.com/a'', [''A'']),
                       (Some ''http://notexample.com/x'', [''other'']),
                       (Some ''http://example.org/'', [''org'']),
                       (Some ''http://example.com/a'', [''A again''])] \<rparr>"

definition leaf_page :: page where
  "leaf_page = \<lparr> title_text = ''A'', meta_text = [], heading_elems = [],
       paragraph_elems = [], anchor_elems = [(Some ''http://example.com'', [''home''])] \<rparr>"

definition content_site :: "fevent list" where
  "content_site =
     [FDeliver 0 \<lparr> resp_url = ''http://example.com'', body = Inr two_links_page \<rparr> good_disk,
      FDeliver 0 \<lparr> resp_url = ''http://example.com/a'', body = Inr leaf_page \<rparr> good_disk,
      FDeliver 1 \<lparr> resp_url = ''http://example.com/a'', body = Inr leaf_page \<rparr> good_disk,
      FDeliver 0 \<lparr> resp_url = ''http://notexample.com/x'', body = Inl ''not text'' \<rparr> good_disk]"

definition content_site_end :: content_crawl where
  "content_site_end = the (content_run plain_urllib ''http://example.com'' 5 content_site)"

definition limit_one :: "fevent list" where
  "limit_one = [FDeliver 0 \<lparr> resp_url = ''http://example.com'', body = Inr two_links_page \<rparr> good_disk]"

definition limit_one_end :: content_crawl where
  "limit_one_end = the (content_run plain_urllib ''http://example.com'' 1 limit_one)"

definition limit_two :: "fevent list" where
  "limit_two =
     [FDeliver 0 \<lparr> resp_url = ''http://example.com'', body = Inr two_links_page \<rparr> good_disk,
      FDeliver 0 \<lparr> resp_url = ''http://example.com/a'', body = Inr leaf_page \<rparr> good_disk,
      FDeliver 0 \<lparr> resp_url = ''http://notexample.com/x'', body = Inr leaf_page \<rparr> good_disk]"

definition limit_two_start :: content_crawl where
  "limit_two_start = the (content_start plain_urllib ''http://example.com'' 2)"

definition failing_save :: disk where
  "failing_save = \<lparr> save_error = Some ''No space left on device'', index_error = None \<rparr>"

definition full_disk :: "fevent list" where
  "full_disk =
     [FDeliver 0 \<lparr> resp_url = ''http://example.com'', body = Inr two_links_page \<rparr> failing_save,
      FDeliver 0 \<lparr> resp_url = ''http://example.com/a'', body = Inr leaf_page \<rparr> good_disk]"

definition full_disk_end :: content_crawl where
  "full_disk_end = the (content_run plain_urllib ''http://example.com'' 5 full_disk)"

definition broken_page :: "fevent list" where
  "broken_page = [FDeliver 0 \<lparr> resp_url = ''http://example.com'', body = Inl ''not text'' \<rparr> good_disk]"

definition broken_page_end :: content_crawl where
  "broken_page_end = the (content_run plain_urllib ''http://example.com'' 5 broken_page)"

definition fresh_spider :: fast_spider where
  "fresh_spider = the (FastSpider_init plain_urllib ''http://example.com'' 5)"

definition not_text :: fast_response where
  "not_text = \<lparr> resp_url = ''http://example.com'', body = Inl ''not text'' \<rparr>"

section \<open>Decimal numerals\<close>

lemma digit_val_digit: "d < 10 \<Longrightarrow> digit_val (digits10 ! d) = d"
proof -
  assume "d < 10"
  then have "d \<in> {0, 1, 2, 3, 4, 5, 6, 7, 8, 9}" by auto
  then show ?thesis by (auto simp: digit_val_def digits10_def)
qed

lemma nat_of_str_snoc: "nat_of_str (s @ [c]) = 10 * nat_of_str s + digit_val c"
  by (simp add: nat_of_str_def)

lemma nat_of_str_nat: "nat_of_str (str_nat n) = n"
proof (induction n rule: str_nat.induct)
  case (1 n)
  show ?case
  proof (cases "n < 10")
    case True
    then show ?thesis
      by (simp add: str_nat.simps[of n] nat_of_str_def digit_val_digit)
  next
    case False
    with 1 have "nat_of_str (str_nat (n div 10)) = n div 10" by simp
    with False show ?thesis
      by (simp add: str_nat.simps[of n] nat_of_str_snoc digit_val_digit)
  qed
qed

lemma str_nat_inj: "str_nat n = str_nat m \<Longrightarrow> n = m"
  by (metis nat_of_str_nat)

section \<open>Properties of census mode\<close>

lemma update_fresh: "k \<notin> fst ` set xs \<Longrightarrow> AList.update k v xs = xs @ [(k, v)]"
  by (induction xs) auto

lemma keys_memD: "fst ` set xs = F \<Longrightarrow> (a, b) \<in> set xs \<Longrightarrow> a \<in> F"
  by force


lemma limit_message_nonempty: "limit_message \<noteq> []"
  by (simp add: limit_message_def)

lemma record_url_inv:
  assumes "census_inv s" "u \<notin> found_urls s" "card (found_urls s) < MAX_PAGES"
    and "record_url L u lvl s = Inl s' \<or> record_url L u lvl s = Inr s'"
  shows "census_inv s'" "found_urls s' = insert u (found_urls s)"
    "allowed_domain s' = allowed_domain s" "stopped_reason s' = stopped_reason s"
  using assms
  by (auto simp: census_inv_def record_url_def Let_def update_fresh split: option.splits dest: keys_memD)

lemma parse_links_inv:
  assumes "census_inv s" "parse_links L base nl hs s = (s', reqs)"
  shows "census_inv s' \<and> found_urls s \<subseteq> found_urls s' \<and> allowed_domain s' = allowed_domain s \<and>
         stopped_reason s' = stopped_reason s \<and> distinct (map fst reqs) \<and>
         (\<forall>q \<in> set reqs. fst q \<notin> found_urls s \<and> fst q \<in> found_urls s' \<and> snd q = nl \<and>
            (\<exists>p. urlparse L (fst q) = Some (allowed_domain s, p)))"
  using assms
proof (induction hs arbitrary: s s' reqs)
  case Nil
  then show ?case by simp
next
  case (Cons h hs)
  show ?case
  proof (cases "urljoin L base h")
    case None
    with Cons.prems show ?thesis by simp
  next
    case (Some u)
    show ?thesis
    proof (cases "urlparse L u")
      case None
      with Some Cons.prems show ?thesis by simp
    next
      case (Some np)
      obtain netloc p where np: "np = (netloc, p)" by (cases np)
      show ?thesis
      proof (cases "netloc = allowed_domain s \<and> u \<notin> found_urls s \<and> card (found_urls s) < MAX_PAGES")
        case False
        with Cons.prems \<open>urljoin L base h = Some u\<close> Some np
        have "parse_links L base nl hs s = (s', reqs)" by auto
        from Cons.IH[OF Cons.prems(1) this] show ?thesis .
      next
        case True
        show ?thesis
        proof (cases "record_url L u nl s")
          case (Inl s1)
          with True Cons.prems \<open>urljoin L base h = Some u\<close> Some np
          have e: "s' = s1" "reqs = []" by auto
          from record_url_inv[OF Cons.prems(1) _ _ disjI1[OF Inl]] True e
          show ?thesis by auto
        next
          case (Inr s1)
          obtain s2 rs where r: "parse_links L base nl hs s1 = (s2, rs)"
            by (cases "parse_links L base nl hs s1")
          from record_url_inv[OF Cons.prems(1) _ _ disjI2[OF Inr]] True
          have s1: "census_inv s1" "found_urls s1 = insert u (found_urls s)"
            "allowed_domain s1 = allowed_domain s" "stopped_reason s1 = stopped_reason s" by auto
          from Cons.IH[OF s1(1) r]
          have ih: "census_inv s2" "found_urls s1 \<subseteq> found_urls s2"
            "allowed_domain s2 = allowed_domain s1" "distinct (map fst rs)"
            "stopped_reason s2 = stopped_reason s1"
            "\<forall>q \<in> set rs. fst q \<notin> found_urls s1 \<and> fst q \<in> found_urls s2 \<and> snd q = nl \<and>
               (\<exists>p. urlparse L (fst q) = Some (allowed_domain s1, p))"
            by auto
          from True Cons.prems \<open>urljoin L base h = Some u\<close> Some np Inr r
          have e: "s' = s2"
            "reqs = (if card (found_urls s1) < MAX_PAGES then (u, nl) # rs else rs)"
            by auto
          have u: "u \<notin> fst ` set rs" using ih(6) s1(2) by auto
          show ?thesis
            using ih s1 e u True Some np by auto
        qed
      qed
    qed
  qed
qed


lemma parse_inv:
  assumes "census_inv s" "parse L r lvl s = (s', reqs, raised)"
  shows "census_inv s' \<and> found_urls s \<subseteq> found_urls s' \<and> allowed_domain s' = allowed_domain s \<and>
         distinct (map fst reqs) \<and>
         (\<forall>q \<in> set reqs. fst q \<notin> found_urls s \<and> fst q \<in> found_urls s' \<and> snd q = lvl + 1 \<and>
            (\<exists>p. urlparse L (fst q) = Some (allowed_domain s, p))) \<and>
         stopped_reason s' = (case raised of None \<Rightarrow> stopped_reason s | Some m \<Rightarrow> Some m) \<and>
         (raised = None \<or> raised = Some limit_message \<and> stopped_reason s = None)"
proof (cases "card (found_urls s) \<ge> MAX_PAGES")
  case True
  with assms show ?thesis
    by (auto simp: parse_def census_inv_def limit_message_nonempty split: if_splits dest: keys_memD)
next
  case False
  define h where "h = (if url r \<notin> found_urls s then record_url L (url r) lvl s else Inr s)"
  have h: "\<And>s1. h = Inl s1 \<or> h = Inr s1 \<Longrightarrow>
      census_inv s1 \<and> found_urls s \<subseteq> found_urls s1 \<and> allowed_domain s1 = allowed_domain s \<and>
      stopped_reason s1 = stopped_reason s"
  proof -
    fix s1 assume a: "h = Inl s1 \<or> h = Inr s1"
    show "census_inv s1 \<and> found_urls s \<subseteq> found_urls s1 \<and> allowed_domain s1 = allowed_domain s \<and>
      stopped_reason s1 = stopped_reason s"
    proof (cases "url r \<notin> found_urls s")
      case True
      with a have "record_url L (url r) lvl s = Inl s1 \<or> record_url L (url r) lvl s = Inr s1"
        by (simp add: h_def)
      from record_url_inv[OF assms(1) True _ this] False show ?thesis by auto
    next
      case False
      with a assms(1) show ?thesis by (simp add: h_def)
    qed
  qed
  have raised: "raised = None" using assms(2) False
    by (auto simp: parse_def split: if_splits sum.splits option.splits prod.splits)
  show ?thesis
  proof (cases h)
    case (Inl s1)
    with assms(2) False have "s' = s1" "reqs = []"
      by (auto simp: parse_def h_def)
    with h[of s1] Inl raised show ?thesis by simp
  next
    case (Inr s1)
    note s1 = h[of s1, OF disjI2[OF Inr]]
    show ?thesis
    proof (cases "card (found_urls s1) < MAX_PAGES \<and> hrefs r \<noteq> None")
      case F: False
      with assms(2) False Inr have "s' = s1" "reqs = []"
        by (auto simp: parse_def h_def split: option.splits)
      with s1 raised show ?thesis by simp
    next
      case T: True
      then obtain hs where hs: "hrefs r = Some hs" by auto
      obtain s2 rs where pl: "parse_links L (url r) (lvl + 1) hs s1 = (s2, rs)"
        by (cases "parse_links L (url r) (lvl + 1) hs s1")
      with assms(2) False Inr T hs have e: "s' = s2" "reqs = rs"
        by (auto simp: parse_def h_def)
      from parse_links_inv[OF _ pl] s1 e raised show ?thesis by auto
    qed
  qed
qed
lemma set_remove_nth: "set (remove_nth i xs) \<subseteq> set xs"
  unfolding remove_nth_def using set_take_subset[of i xs] set_drop_subset[of "Suc i" xs] by auto

lemma crawl_inv_start:
  assumes "census_start L seed = Some c"
  shows "crawl_inv L seed c"
  using assms
  by (auto simp: census_start_def CountSpider_init_def crawl_inv_def census_inv_def
      split: option.splits)

lemma crawl_inv_step:
  assumes "crawl_inv L seed c"
  shows "crawl_inv L seed (census_step L e c)"
proof (cases e)
  case (Fail i)
  with assms set_remove_nth[of i "pending c"] show ?thesis
    by (auto simp: crawl_inv_def)
next
  case (Deliver i r)
  show ?thesis
  proof (cases "i < length (pending c)")
    case False
    with Deliver assms show ?thesis by simp
  next
    case True
    obtain s' reqs raised where p: "parse L r (snd (pending c ! i)) (spider c) = (s', reqs, raised)"
      by (cases "parse L r (snd (pending c ! i)) (spider c)")
    from assms have ci: "census_inv (spider c)" by (simp add: crawl_inv_def)
    note pi = parse_inv[OF ci p]
    have st: "census_step L e c =
       c\<lparr> spider := s', pending := remove_nth i (pending c) @ reqs,
          closing := (case closing c of None \<Rightarrow> raised | Some x \<Rightarrow> Some x),
          issued := issued c @ reqs \<rparr>"
      using Deliver True p by simp
    have "fst ` set (issued c) \<inter> fst ` set reqs = {}"
      using assms pi by (fastforce simp: crawl_inv_def)
    then have d: "distinct (map fst (issued c @ reqs))"
      using assms pi by (simp add: crawl_inv_def)
    have cl: "(case closing c of None \<Rightarrow> raised | Some x \<Rightarrow> Some x) = stopped_reason s'"
      using assms pi by (auto simp: crawl_inv_def split: option.splits)
    have pe: "set (remove_nth i (pending c) @ reqs) \<subseteq> insert (seed, 0) (set (issued c @ reqs))"
      using assms set_remove_nth[of i "pending c"] by (auto simp: crawl_inv_def)
    have al: "\<forall>q \<in> set (issued c @ reqs). \<exists>p. urlparse L (fst q) = Some (allowed_domain s', p)"
      using assms pi by (auto simp: crawl_inv_def)
    have fo: "fst ` set (issued c @ reqs) \<subseteq> found_urls s'"
      using assms pi by (auto simp: crawl_inv_def)
    have se: "\<exists>p. urlparse L seed = Some (allowed_domain s', p)"
      using assms pi by (auto simp: crawl_inv_def)
    show ?thesis
      unfolding st crawl_inv_def using pi d cl pe al fo se by simp
  qed
qed















lemma sum_update:
  "sum_list (map snd (AList.update k (dd_get d k + 1) d)) = sum_list (map snd d) + 1"
proof (induction d)
  case Nil
  then show ?case by (simp add: dd_get_def)
next
  case (Cons x d)
  obtain a b where x: "x = (a, b)" by (cases x)
  show ?case
  proof (cases "a = k")
    case True
    with x show ?thesis by (simp add: dd_get_def)
  next
    case False
    then have "dd_get (x # d) k = dd_get d k" using x by (simp add: dd_get_def)
    with Cons False x show ?thesis by simp
  qed
qed

lemma sum_dd_incr: "sum_list (map snd (dd_incr k d)) = sum_list (map snd d) + 1"
  unfolding dd_incr_def by (rule sum_update)

lemma record_url_counts:
  assumes "counts_inv s" "finite (found_urls s)" "u \<notin> found_urls s"
    and "record_url L u lvl s = Inr s'"
  shows "counts_inv s'"
  using assms
  by (auto simp: counts_inv_def record_url_def Let_def sum_dd_incr split: option.splits)

lemma parse_links_counts:
  assumes "counts_inv s" "census_inv s" "\<forall>u. urlparse L u \<noteq> None"
    and "parse_links L base nl hs s = (s', reqs)"
  shows "counts_inv s'"
  using assms
proof (induction hs arbitrary: s s' reqs)
  case Nil
  then show ?case by simp
next
  case (Cons h hs)
  show ?case
  proof (cases "urljoin L base h")
    case None
    with Cons.prems show ?thesis by simp
  next
    case (Some u)
    from Cons.prems(3) have "urlparse L u \<noteq> None" by blast
    then obtain netloc p where np: "urlparse L u = Some (netloc, p)" by auto
    show ?thesis
    proof (cases "netloc = allowed_domain s \<and> u \<notin> found_urls s \<and> card (found_urls s) < MAX_PAGES")
      case False
      with Cons.prems Some np have "parse_links L base nl hs s = (s', reqs)" by auto
      from Cons.IH[OF Cons.prems(1,2,3) this] show ?thesis .
    next
      case True
      from np obtain s1 where r: "record_url L u nl s = Inr s1"
        by (simp add: record_url_def Let_def)
      obtain s2 rs where pl: "parse_links L base nl hs s1 = (s2, rs)"
        by (cases "parse_links L base nl hs s1")
      from Cons.prems(2) have fin: "finite (found_urls s)" by (simp add: census_inv_def)
      from True have "u \<notin> found_urls s" "card (found_urls s) < MAX_PAGES" by simp_all
      note ri = record_url_inv(1)[OF Cons.prems(2) this disjI2[OF r]]
      from record_url_counts[OF Cons.prems(1) fin _ r] True have c1: "counts_inv s1" by simp
      from True Cons.prems(4) Some np r pl have "s' = s2" by auto
      with Cons.IH[OF c1 ri Cons.prems(3) pl] show ?thesis by simp
    qed
  qed
qed

lemma parse_counts:
  assumes "counts_inv s" "census_inv s" "\<forall>u. urlparse L u \<noteq> None"
    and "parse L r lvl s = (s', reqs, raised)"
  shows "counts_inv s'"
proof (cases "card (found_urls s) \<ge> MAX_PAGES")
  case True
  with assms show ?thesis by (auto simp: parse_def counts_inv_def split: if_splits)
next
  case False
  define h where "h = (if url r \<notin> found_urls s then record_url L (url r) lvl s else Inr s)"
  from assms(3) have "urlparse L (url r) \<noteq> None" by blast
  then obtain netloc p where np: "urlparse L (url r) = Some (netloc, p)" by auto
  then obtain s0 where s0: "record_url L (url r) lvl s = Inr s0"
    by (simp add: record_url_def Let_def)
  from assms(2) have fin: "finite (found_urls s)" by (simp add: census_inv_def)
  obtain s1 where s1: "h = Inr s1" "counts_inv s1" "census_inv s1"
  proof (cases "url r \<notin> found_urls s")
    case True
    from False have "card (found_urls s) < MAX_PAGES" by simp
    note ri = record_url_inv(1)[OF assms(2) True this disjI2[OF s0]]
    from record_url_counts[OF assms(1) fin True s0] ri True s0 that show ?thesis
      by (simp add: h_def)
  next
    case False
    with assms that show ?thesis by (simp add: h_def)
  qed
  show ?thesis
  proof (cases "card (found_urls s1) < MAX_PAGES \<and> hrefs r \<noteq> None")
    case F: False
    with assms(4) False s1(1) have "s' = s1"
      by (auto simp: parse_def h_def split: option.splits)
    with s1 show ?thesis by simp
  next
    case T: True
    then obtain hs where hs: "hrefs r = Some hs" by auto
    obtain s2 rs where pl: "parse_links L (url r) (lvl + 1) hs s1 = (s2, rs)"
      by (cases "parse_links L (url r) (lvl + 1) hs s1")
    with assms(4) False s1(1) T hs have "s' = s2"
      by (auto simp: parse_def h_def)
    with parse_links_counts[OF s1(2,3) assms(3) pl] show ?thesis by simp
  qed
qed

lemma counts_inv_run:
  assumes "crawl_inv L seed c" "counts_inv (spider c)" "\<forall>u. urlparse L u \<noteq> None"
  shows "counts_inv (spider (census_run L evs c))"
  using assms unfolding census_run_def
proof (induction evs arbitrary: c)
  case Nil
  then show ?case by simp
next
  case (Cons e evs)
  have "counts_inv (spider (census_step L e c))"
  proof (cases e)
    case (Fail i)
    with Cons.prems show ?thesis by simp
  next
    case (Deliver i r)
    show ?thesis
    proof (cases "i < length (pending c)")
      case False
      with Deliver Cons.prems show ?thesis by simp
    next
      case True
      obtain s' reqs raised where p: "parse L r (snd (pending c ! i)) (spider c) = (s', reqs, raised)"
        by (cases "parse L r (snd (pending c ! i)) (spider c)")
      from Cons.prems(1) have "census_inv (spider c)" by (simp add: crawl_inv_def)
      from parse_counts[OF Cons.prems(2) this Cons.prems(3) p] Deliver True p
      show ?thesis by simp
    qed
  qed
  from Cons.IH[OF crawl_inv_step[OF Cons.prems(1)] this Cons.prems(3)]
  show ?case by simp
qed

lemma percent_total_eq:
  "percent_total \<lparr> total_unique_urls = a, stats_url_counter = b, max_level = c,
                    level_statistics = level_stats_of s, ordered_urls = d,
                    reached_limit = e, reason = f \<rparr> =
   real (sum_list (map snd (level_counts s))) / real (card (found_urls s)) * 100"
proof -
  have "sum_list (map (\<lambda>(k, ls). percentage ls) (map (\<lambda>(lvl, c). (str_nat lvl,
            \<lparr> count = c, percentage = (real c / real n) * 100 \<rparr>)) xs)) =
        real (sum_list (map snd xs)) / real n * 100" for xs :: "(nat \<times> nat) list" and n :: nat
    by (induction xs) (auto simp: add_divide_distrib distrib_right)
  then show ?thesis by (simp add: percent_total_def level_stats_of_def)
qed

text \<open>
  The same in every census crawl that has a result, as long as \<^verbatim>\<open>urlparse\<close> does not
  raise: the percentages sum to 100 + 100 / N for N found URLs.
\<close>

lemma percentages_overshoot:
  assumes "census_crawl L seed evs = Some c" "\<forall>u. urlparse L u \<noteq> None"
    and "census_result c = Inr (s', Some st)"
  shows "percent_total st = 100 + 100 / real (total_unique_urls st) \<and> percent_total st \<noteq> 100"
proof -
  from assms(1) obtain c0 where c0: "census_start L seed = Some c0" "c = census_run L evs c0"
    by (auto simp: census_crawl_def)
  have "counts_inv (spider c0)"
    using c0(1) by (auto simp: census_start_def CountSpider_init_def counts_inv_def split: option.splits)
  from counts_inv_run[OF crawl_inv_start[OF c0(1)] this assms(2)] c0(2)
  have ci: "sum_list (map snd (level_counts (spider c))) = card (found_urls (spider c)) + 1"
    by (simp add: counts_inv_def)
  from assms(3) have n: "card (found_urls (spider c)) \<noteq> 0"
    using ci by (auto simp: census_result_def spider_closed_def split: if_splits)
  from assms(3) have st: "total_unique_urls st = card (found_urls (spider c))"
    "percent_total st = real (sum_list (map snd (level_counts (spider c)))) /
        real (card (found_urls (spider c))) * 100"
    by (auto simp: census_result_def spider_closed_def percent_total_eq split: if_splits)
  have "percent_total st = 100 + 100 / real (total_unique_urls st)"
    unfolding st ci using n by (simp add: field_simps)
  moreover from this n st(1) have "percent_total st \<noteq> 100" by simp
  ultimately show ?thesis by simp
qed





























section \<open>Properties of content mode\<close>

lemma page_name_inj: "page_name n = page_name m \<Longrightarrow> n = m"
  by (auto simp: page_name_def dest: str_nat_inj)


lemma follow_links_guard:
  assumes "follow_links L s ls = (reqs, raised)"
  shows "\<forall>u \<in> set reqs. u \<notin> visited_urls s \<and>
           (\<exists>netloc p. urlparse L u = Some (netloc, p) \<and> str_in (allowed_domain_f s) netloc)"
  using assms
proof (induction ls arbitrary: reqs raised)
  case Nil
  then show ?case by simp
next
  case (Cons l ls)
  obtain t h where l: "l = (t, h)" by (cases l)
  obtain rs ra where f: "follow_links L s ls = (rs, ra)" by (cases "follow_links L s ls")
  from Cons.IH[OF f] Cons.prems l f show ?case
    by (auto split: if_splits option.splits)
qed


lemma extract_content_cases:
  assumes "extract_content L r s = (s1, co)"
  shows "(co = None \<and> (\<exists>e. s1 = s\<lparr> error_log := error_log s @ [Extraction_error (resp_url r) e] \<rparr>)) \<or>
         (\<exists>c. co = Some c \<and> s1 = s \<and> content_url c = resp_url r)"
  using assms
  by (auto simp: extract_content_def split: sum.splits option.splits)

lemma save_content_fields:
  "pages_crawled (save_content c f d s) = pages_crawled s"
  "visited_urls (save_content c f d s) = visited_urls s"
  "page_limit (save_content c f d s) = page_limit s"
  "allowed_domain_f (save_content c f d s) = allowed_domain_f s"
  "index_file (save_content c f d s) = index_file s"
  by (auto simp: save_content_def split: option.splits)

lemma page_stored_fields:
  "pages_crawled (page_stored c r d s) = pages_crawled s + 1"
  "visited_urls (page_stored c r d s) = insert (resp_url r) (visited_urls s)"
  "page_limit (page_stored c r d s) = page_limit s"
  "allowed_domain_f (page_stored c r d s) = allowed_domain_f s"
  "index_file (page_stored c r d s) =
     index_file s @ [Entry (pages_crawled s + 1) (title c) (resp_url r) (page_name (pages_crawled s + 1))]"
  "page_files (page_stored c r d s) =
     page_files (save_content c (page_name (pages_crawled s + 1)) d s)"
  by (simp_all add: page_stored_def save_content_fields)

lemma FastSpider_parse_success:
  assumes "\<not> page_limit s \<le> int (pages_crawled s)" "resp_url r \<notin> visited_urls s"
    and "extract_content L r s = (s, Some c)" "index_error d = None"
  shows "FastSpider_parse L r d s =
     (if int (pages_crawled s) + 1 < page_limit s then
        (case follow_links L (page_stored c r d s) (links c) of
           (reqs, raised) \<Rightarrow>
             (if raised
              then (page_stored c r d s)\<lparr> error_log := error_log (page_stored c r d s) @
                                            [Processing_error (resp_url r) ''ValueError''] \<rparr>
              else page_stored c r d s,
              reqs, None))
      else (page_stored c r d s, [], None))"
  using assms
  by (auto simp: FastSpider_parse_def Let_def page_stored_def save_content_fields
      split: prod.splits)

lemma FastSpider_parse_index_error:
  assumes "\<not> page_limit s \<le> int (pages_crawled s)" "resp_url r \<notin> visited_urls s"
    and "extract_content L r s = (s, Some c)" "index_error d = Some e"
  shows "FastSpider_parse L r d s =
     ((save_content c (page_name (pages_crawled s + 1)) d s)
        \<lparr> error_log := error_log (save_content c (page_name (pages_crawled s + 1)) d s) @
                         [Processing_error (resp_url r) e] \<rparr>, [], None)"
  using assms
  by (simp add: FastSpider_parse_def Let_def)

lemma FastSpider_parse_basic:
  assumes "FastSpider_parse L r d s = (s', reqs, close)"
  shows "page_limit s' = page_limit s \<and> allowed_domain_f s' = allowed_domain_f s \<and>
         (int (pages_crawled s) \<le> max 0 (page_limit s) \<longrightarrow>
            int (pages_crawled s') \<le> max 0 (page_limit s)) \<and>
         (close = (if page_limit s \<le> int (pages_crawled s)
                   then Some ''Reached page limit'' else None)) \<and>
         (close \<noteq> None \<longrightarrow> s' = s) \<and>
         (\<forall>u \<in> set reqs. u \<notin> visited_urls s \<and>
             (\<exists>netloc p. urlparse L u = Some (netloc, p) \<and> str_in (allowed_domain_f s) netloc))"
proof (cases "page_limit s \<le> int (pages_crawled s) \<or> resp_url r \<in> visited_urls s")
  case True
  with assms show ?thesis by (auto simp: FastSpider_parse_def split: if_splits)
next
  case False
  obtain s1 co where e: "extract_content L r s = (s1, co)" by (cases "extract_content L r s")
  from extract_content_cases[OF e] show ?thesis
  proof
    assume "co = None \<and> (\<exists>e. s1 = s\<lparr> error_log := error_log s @ [Extraction_error (resp_url r) e] \<rparr>)"
    with assms False e show ?thesis by (auto simp: FastSpider_parse_def)
  next
    assume "\<exists>c. co = Some c \<and> s1 = s \<and> content_url c = resp_url r"
    then obtain c where c: "extract_content L r s = (s, Some c)" using e by blast
    show ?thesis
    proof (cases "index_error d")
      case (Some x)
      from assms FastSpider_parse_index_error[OF _ _ c Some] False show ?thesis
        by (auto simp: save_content_fields)
    next
      case None
      obtain rs ra where f: "follow_links L (page_stored c r d s) (links c) = (rs, ra)"
        by (cases "follow_links L (page_stored c r d s) (links c)")
      note g = follow_links_guard[OF f]
      from assms FastSpider_parse_success[OF _ _ c None] False f g show ?thesis
        by (auto simp: page_stored_fields split: if_splits)
    qed
  qed
qed

lemma entries_append: "entries (xs @ ys) = entries xs @ entries ys"
  by (induction xs rule: entries.induct) auto

lemma files_inv_length: "files_inv s \<Longrightarrow> length (page_files s) = pages_crawled s"
proof -
  assume "files_inv s"
  then have "length (map fst (page_files s)) = length (map page_name [1..<Suc (pages_crawled s)])"
    by (simp add: files_inv_def)
  then show ?thesis by simp
qed

lemma page_stored_files_inv:
  assumes "files_inv s" "save_error d = None" "content_url c = resp_url r"
    and "resp_url r \<notin> visited_urls s"
  shows "files_inv (page_stored c r d s)"
proof -
  let ?n = "pages_crawled s + 1"
  let ?old = "[1..<Suc (pages_crawled s)]"
  from assms(1) have m: "map fst (page_files s) = map page_name ?old"
    and en: "entries (index_file s) =
       map (\<lambda>(k, f, c). (k, content_url c, f)) (zip ?old (page_files s))"
    and di: "distinct (map (\<lambda>(f, c). content_url c) (page_files s))"
    and vi: "set (map (\<lambda>(f, c). content_url c) (page_files s)) = visited_urls s"
    by (simp_all add: files_inv_def del: upt_Suc)
  have u: "[1..<Suc ?n] = ?old @ [?n]" by simp
  have "page_name ?n \<notin> set (map page_name ?old)"
    by (auto dest: page_name_inj)
  with m have "page_name ?n \<notin> fst ` set (page_files s)"
    by (metis set_map)
  then have pf: "page_files (page_stored c r d s) = page_files s @ [(page_name ?n, c)]"
    using assms(2) by (simp add: page_stored_fields save_content_def update_fresh)
  have len: "length ?old = length (page_files s)"
    using files_inv_length[OF assms(1)] by simp
  have z: "zip (?old @ [?n]) (page_files s @ [(page_name ?n, c)]) =
           zip ?old (page_files s) @ [(?n, page_name ?n, c)]"
    using len by (simp del: upt_Suc)
  have 1: "map fst (page_files (page_stored c r d s)) =
           map page_name [1..<Suc (pages_crawled (page_stored c r d s))]"
    unfolding page_stored_fields(1) u pf using m by (simp del: upt_Suc)
  have 2: "entries (index_file (page_stored c r d s)) =
       map (\<lambda>(k, f, c). (k, content_url c, f))
         (zip [1..<Suc (pages_crawled (page_stored c r d s))] (page_files (page_stored c r d s)))"
    unfolding page_stored_fields(1) u pf z page_stored_fields(5)
    using en assms(3) by (simp add: entries_append del: upt_Suc)
  have 3: "distinct (map (\<lambda>(f, c). content_url c) (page_files (page_stored c r d s)))"
    unfolding pf using di vi assms(3,4) by auto
  have 4: "set (map (\<lambda>(f, c). content_url c) (page_files (page_stored c r d s))) =
           visited_urls (page_stored c r d s)"
    unfolding pf page_stored_fields(2) using vi assms(3) by auto
  from 1 2 3 4 show ?thesis unfolding files_inv_def by blast
qed

lemma files_inv_error_log [simp]: "files_inv (s\<lparr> error_log := x \<rparr>) = files_inv s"
  by (simp add: files_inv_def)

lemma FastSpider_parse_files_inv:
  assumes "FastSpider_parse L r d s = (s', reqs, close)" "files_inv s"
    and "save_error d = None" "index_error d = None"
  shows "files_inv s'"
proof (cases "page_limit s \<le> int (pages_crawled s) \<or> resp_url r \<in> visited_urls s")
  case True
  with assms show ?thesis by (auto simp: FastSpider_parse_def split: if_splits)
next
  case False
  obtain s1 co where e: "extract_content L r s = (s1, co)" by (cases "extract_content L r s")
  from extract_content_cases[OF e] show ?thesis
  proof
    assume "co = None \<and> (\<exists>e. s1 = s\<lparr> error_log := error_log s @ [Extraction_error (resp_url r) e] \<rparr>)"
    with assms False e show ?thesis by (auto simp: FastSpider_parse_def)
  next
    assume "\<exists>c. co = Some c \<and> s1 = s \<and> content_url c = resp_url r"
    then obtain c where c: "extract_content L r s = (s, Some c)" "content_url c = resp_url r"
      using e by blast
    from False have nv: "resp_url r \<notin> visited_urls s" by simp
    from page_stored_files_inv[OF assms(2) assms(3) c(2) nv] assms(1)
      FastSpider_parse_success[OF _ _ c(1) assms(4)] False show ?thesis
      by (auto split: if_splits prod.splits)
  qed
qed

lemmas content_eval =
  content_run_def content_start_def FastSpider_init_def FastSpider_parse_def extract_content_def
  save_content_def page_name_def remove_nth_def plain_urllib_def good_disk_def extract_text_def
  strip_def is_space_def errback_def content_reason_def

lemma content_site_crawl:
  "content_run plain_urllib ''http://example.com'' 5 content_site = Some content_site_end"
  by (simp add: content_site_end_def content_eval content_site_def)

lemma limit_one_crawl:
  "content_run plain_urllib ''http://example.com'' 1 limit_one = Some limit_one_end"
  by (simp add: limit_one_end_def content_eval limit_one_def)

lemma broken_page_crawl:
  "content_run plain_urllib ''http://example.com'' 5 broken_page = Some broken_page_end"
  by (simp add: broken_page_end_def content_eval broken_page_def)

lemma limit_one_values:
  "pages_crawled (fspider limit_one_end) = 1" "page_limit (fspider limit_one_end) = 1"
  "fpending limit_one_end = []" "content_reason limit_one_end = ''finished''"
  by code_simp+

lemma content_site_values:
  "fissued content_site_end = [''http://example.com/a'', ''http://notexample.com/x'', ''http://example.com/a'']"
  "allowed_domain_f (fspider content_site_end) = ''example.com''"
  "pages_crawled (fspider content_site_end) = 2"
  "map fst (page_files (fspider content_site_end)) = [''page_1.txt'', ''page_2.txt'']"
  "visited_urls (fspider content_site_end) = {''http://example.com'', ''http://example.com/a''}"
  by code_simp+

lemma broken_page_values:
  "visited_urls (fspider broken_page_end) = {}"
  "error_log (fspider broken_page_end) = [Extraction_error ''http://example.com'' ''not text'']"
  "fclosing broken_page_end = None"
  by code_simp+


lemma fast_inv_start:
  assumes "content_start L seed limit = Some c"
  shows "fast_inv L seed limit c \<and> files_inv (fspider c)"
  using assms
  by (auto simp: content_start_def FastSpider_init_def fast_inv_def files_inv_def
      split: option.splits)

lemma fast_inv_step:
  assumes "fast_inv L seed limit c"
  shows "fast_inv L seed limit (content_step L e c)"
proof (cases e)
  case (FFail i failure)
  with assms set_remove_nth[of i "fpending c"] show ?thesis
    by (auto simp: fast_inv_def errback_def)
next
  case (FDeliver i r d)
  show ?thesis
  proof (cases "i < length (fpending c)")
    case False
    with FDeliver assms show ?thesis by simp
  next
    case True
    obtain s' reqs close where p: "FastSpider_parse L r d (fspider c) = (s', reqs, close)"
      by (cases "FastSpider_parse L r d (fspider c)")
    note b = FastSpider_parse_basic[OF p]
    have st: "content_step L e c =
       c\<lparr> fspider := s', fpending := remove_nth i (fpending c) @ reqs,
          fclosing := (case fclosing c of None \<Rightarrow> close | Some x \<Rightarrow> Some x),
          fissued := fissued c @ reqs \<rparr>"
      using FDeliver True p by simp
    have pe: "set (remove_nth i (fpending c) @ reqs) \<subseteq> insert seed (set (fissued c @ reqs))"
      using assms set_remove_nth[of i "fpending c"] by (auto simp: fast_inv_def)
    have cl: "(case fclosing c of None \<Rightarrow> close | Some x \<Rightarrow> Some x) = None \<or>
              (case fclosing c of None \<Rightarrow> close | Some x \<Rightarrow> Some x) = Some ''Reached page limit'' \<and>
              limit \<le> int (pages_crawled s')"
      using assms b by (auto simp: fast_inv_def split: option.splits if_splits)
    have pl: "page_limit s' = limit" "int (pages_crawled s') \<le> max 0 limit"
      using assms b by (auto simp: fast_inv_def)
    have al: "\<exists>p. urlparse L seed = Some (allowed_domain_f s', p)"
      using assms b by (auto simp: fast_inv_def)
    have iu: "\<forall>u \<in> set (fissued c @ reqs). \<exists>netloc p. urlparse L u = Some (netloc, p) \<and>
                                  str_in (allowed_domain_f s') netloc"
      using assms b by (auto simp: fast_inv_def)
    show ?thesis
      unfolding st fast_inv_def using pe cl pl al iu by simp
  qed
qed

lemma files_inv_step:
  assumes "files_inv (fspider c)" "disk_ok e"
  shows "files_inv (fspider (content_step L e c))"
proof (cases e)
  case (FFail i failure)
  with assms show ?thesis by (simp add: errback_def)
next
  case (FDeliver i r d)
  show ?thesis
  proof (cases "i < length (fpending c)")
    case False
    with FDeliver assms show ?thesis by simp
  next
    case True
    obtain s' reqs close where p: "FastSpider_parse L r d (fspider c) = (s', reqs, close)"
      by (cases "FastSpider_parse L r d (fspider c)")
    from assms(2) FDeliver have "save_error d = None" "index_error d = None" by simp_all
    from FastSpider_parse_files_inv[OF p assms(1) this] FDeliver True p show ?thesis by simp
  qed
qed

lemma fast_inv_fold:
  assumes "fast_inv L seed limit c"
  shows "fast_inv L seed limit (fold (content_step L) evs c)"
  using assms by (induction evs arbitrary: c) (auto intro: fast_inv_step)

lemma files_inv_fold:
  assumes "files_inv (fspider c)" "list_all disk_ok evs"
  shows "files_inv (fspider (fold (content_step L) evs c))"
  using assms by (induction evs arbitrary: c) (auto intro: files_inv_step)


lemma files_inv_run:
  assumes "content_run L seed limit evs = Some c" "list_all disk_ok evs"
  shows "files_inv (fspider c)"
  using assms files_inv_fold[of _ evs L] fast_inv_start[of L seed limit]
  by (auto simp: content_run_def)

lemma content_reason_fold:
  assumes "fast_inv L seed limit c"
  shows "content_reason (fold (content_step L) evs c) =
         (if fclosing c \<noteq> None \<or> late_response L evs c then ''Reached page limit'' else ''finished'')"
  using assms
proof (induction evs arbitrary: c)
  case Nil
  then show ?case by (auto simp: content_reason_def fast_inv_def)
next
  case (Cons e es)
  note i = fast_inv_step[OF Cons.prems, of e]
  note ih = Cons.IH[OF i]
  show ?case
  proof (cases e)
    case (FFail j failure)
    have "fclosing (content_step L e c) = fclosing c" using FFail by simp
    with ih FFail show ?thesis by simp
  next
    case (FDeliver j r d)
    show ?thesis
    proof (cases "j < length (fpending c)")
      case False
      with FDeliver have "content_step L e c = c" by simp
      with ih FDeliver False show ?thesis by simp
    next
      case True
      obtain s' reqs close where p: "FastSpider_parse L r d (fspider c) = (s', reqs, close)"
        by (cases "FastSpider_parse L r d (fspider c)")
      from FastSpider_parse_basic[OF p]
      have cl: "close = (if page_limit (fspider c) \<le> int (pages_crawled (fspider c))
                   then Some ''Reached page limit'' else None)" by simp
      have "fclosing (content_step L e c) = (case fclosing c of None \<Rightarrow> close | Some x \<Rightarrow> Some x)"
        using FDeliver True p by simp
      with cl have "fclosing (content_step L e c) \<noteq> None \<longleftrightarrow>
          fclosing c \<noteq> None \<or> page_limit (fspider c) \<le> int (pages_crawled (fspider c))"
        by (auto split: option.splits)
      with ih FDeliver True show ?thesis by auto
    qed
  qed
qed

text \<open>
  C6, amended: the number of pages processed never exceeds the page limit (no page at all
  for a limit below 1). The reason is "Reached page limit" exactly when some response was
  handed to \<^verbatim>\<open>parse\<close> after the page count had reached the limit, which implies that the
  limit was reached; otherwise it is the close reason of the engine, \<^verbatim>\<open>'finished'\<close>.
\<close>

theorem content_page_limit:
  assumes "content_start L seed limit = Some c0"
  shows "page_limit (fspider (fold (content_step L) evs c0)) = limit \<and>
         int (pages_crawled (fspider (fold (content_step L) evs c0))) \<le> max 0 limit \<and>
         content_reason (fold (content_step L) evs c0) =
           (if late_response L evs c0 then ''Reached page limit'' else ''finished'') \<and>
         (late_response L evs c0 \<longrightarrow>
            limit \<le> int (pages_crawled (fspider (fold (content_step L) evs c0))))"
proof -
  let ?c = "fold (content_step L) evs c0"
  from fast_inv_start[OF assms] have i0: "fast_inv L seed limit c0" by simp
  have n0: "fclosing c0 = None"
    using assms by (auto simp: content_start_def split: option.splits)
  from fast_inv_fold[OF i0] have i: "fast_inv L seed limit ?c" .
  then have pl: "page_limit (fspider ?c) = limit" "int (pages_crawled (fspider ?c)) \<le> max 0 limit"
    and cl: "fclosing ?c = None \<or>
      fclosing ?c = Some ''Reached page limit'' \<and> limit \<le> int (pages_crawled (fspider ?c))"
    by (simp_all add: fast_inv_def)
  from content_reason_fold[OF i0, of evs] n0
  have r: "content_reason ?c =
           (if late_response L evs c0 then ''Reached page limit'' else ''finished'')"
    by simp
  have h: "late_response L evs c0 \<longrightarrow> limit \<le> int (pages_crawled (fspider ?c))"
    using r cl by (auto simp: content_reason_def)
  from pl r h show ?thesis by blast
qed

lemma limit_two_start:
  "content_start plain_urllib ''http://example.com'' 2 = Some limit_two_start"
  by (simp add: limit_two_start_def content_start_def FastSpider_init_def plain_urllib_def)

theorem content_page_limit_witness:
  "content_start plain_urllib ''http://example.com'' 2 = Some limit_two_start \<and>
   late_response plain_urllib limit_two limit_two_start \<and>
   int (pages_crawled (fspider (fold (content_step plain_urllib) limit_two limit_two_start))) \<le> max 0 2 \<and>
   pages_crawled (fspider (fold (content_step plain_urllib) limit_two limit_two_start)) = 2 \<and>
   content_reason (fold (content_step plain_urllib) limit_two limit_two_start) = ''Reached page limit''"
proof -
  have a: "late_response plain_urllib limit_two limit_two_start"
    by code_simp
  have b: "pages_crawled (fspider (fold (content_step plain_urllib) limit_two limit_two_start)) = 2"
    by code_simp
  from content_page_limit[OF limit_two_start, of limit_two] a b limit_two_start
  show ?thesis by simp
qed

text \<open>
  C6, as stated, fails: with limit 1 the crawl processes the seed, which reaches the limit
  and yields no request, so the engine finishes with \<^verbatim>\<open>'finished'\<close>; \<^verbatim>\<open>parse\<close> is never
  entered again to call \<^verbatim>\<open>close_spider\<close>.
\<close>

theorem limit_one_counterexample:
  "content_run plain_urllib ''http://example.com'' 1 limit_one = Some limit_one_end \<and>
   fpending limit_one_end = [] \<and>
   page_limit (fspider limit_one_end) = 1 \<and>
   pages_crawled (fspider limit_one_end) = 1 \<and>
   content_reason limit_one_end \<noteq> ''Reached page limit''"
proof -
  have "content_reason limit_one_end \<noteq> ''Reached page limit''"
    by (simp add: limit_one_values)
  with limit_one_crawl limit_one_values show ?thesis by blast
qed

text \<open>
  C9, as stated, fails when a file cannot be written: \<^verbatim>\<open>save_content\<close> logs the failure
  and returns, \<^verbatim>\<open>parse\<close> goes on to write the index entry and to count the page. After the
  next page, processed without any failure, two pages are counted and the only page file is
  \<open>page_2.txt\<close>.
\<close>

theorem full_disk_counterexample:
  "content_run plain_urllib ''http://example.com'' 5 full_disk = Some full_disk_end \<and>
   pages_crawled (fspider full_disk_end) = 2 \<and>
   map fst (page_files (fspider full_disk_end)) = [''page_2.txt''] \<and>
   length (page_files (fspider full_disk_end)) \<noteq> pages_crawled (fspider full_disk_end)"
proof -
  have a: "content_run plain_urllib ''http://example.com'' 5 full_disk = Some full_disk_end"
    by (simp add: full_disk_end_def content_eval full_disk_def)
  have b: "pages_crawled (fspider full_disk_end) = 2"
    "map fst (page_files (fspider full_disk_end)) = [''page_2.txt'']"
    "length (page_files (fspider full_disk_end)) = 1"
    by code_simp+
  from a b show ?thesis by simp
qed

text \<open>
  C9, amended: in a content crawl whose file operations succeed, the page files are named
  \<open>page_1.txt\<close> to \<open>page_N.txt\<close> for the \<open>N\<close> pages crawled, there are \<open>N\<close> of them, the
  index has one entry per file in the same order, and no URL has two files or two entries,
  however often it was requested.
\<close>

theorem content_files_consecutive:
  assumes "content_run L seed limit evs = Some c" "list_all disk_ok evs"
  shows "map fst (page_files (fspider c)) = map page_name [1..<Suc (pages_crawled (fspider c))] \<and>
         length (page_files (fspider c)) = pages_crawled (fspider c) \<and>
         distinct (map fst (page_files (fspider c))) \<and>
         map (\<lambda>(k, u, f). (k, f)) (entries (index_file (fspider c))) =
           map (\<lambda>k. (k, page_name k)) [1..<Suc (pages_crawled (fspider c))] \<and>
         map (\<lambda>(k, u, f). u) (entries (index_file (fspider c))) =
           map (\<lambda>(f, c). content_url c) (page_files (fspider c)) \<and>
         distinct (map (\<lambda>(f, c). content_url c) (page_files (fspider c))) \<and>
         set (map (\<lambda>(f, c). content_url c) (page_files (fspider c))) = visited_urls (fspider c)"
proof -
  let ?s = "fspider c"
  let ?ks = "[1..<Suc (pages_crawled ?s)]"
  note fi = files_inv_run[OF assms]
  then have m: "map fst (page_files ?s) = map page_name ?ks"
    and en: "entries (index_file ?s) =
       map (\<lambda>(k, f, c). (k, content_url c, f)) (zip ?ks (page_files ?s))"
    and di: "distinct (map (\<lambda>(f, c). content_url c) (page_files ?s))"
    and vi: "set (map (\<lambda>(f, c). content_url c) (page_files ?s)) = visited_urls ?s"
    by (simp_all add: files_inv_def del: upt_Suc)
  note len = files_inv_length[OF fi]
  then have l2: "length ?ks = length (page_files ?s)" by simp
  have "inj_on page_name (set ?ks)" by (auto simp: inj_on_def dest: page_name_inj)
  then have "distinct (map page_name ?ks)" by (simp add: distinct_map del: upt_Suc)
  with m have d: "distinct (map fst (page_files ?s))" by simp
  have "map (\<lambda>(k, u, f). u) (entries (index_file ?s)) =
        map (\<lambda>(f, c). content_url c) (map snd (zip ?ks (page_files ?s)))"
    unfolding en by (simp add: case_prod_beta del: upt_Suc)
  then have eu: "map (\<lambda>(k, u, f). u) (entries (index_file ?s)) =
        map (\<lambda>(f, c). content_url c) (page_files ?s)"
    using l2 by (simp only: map_snd_zip)
  have "map (\<lambda>(k, u, f). (k, f)) (entries (index_file ?s)) =
        map (\<lambda>(k, n). (k, n)) (zip ?ks (map fst (page_files ?s)))"
    unfolding en by (simp add: zip_map2 case_prod_beta del: upt_Suc)
  also have "\<dots> = zip ?ks (map page_name ?ks)" unfolding m by simp
  also have "\<dots> = map (\<lambda>k. (k, page_name k)) ?ks" by (simp add: zip_map2 zip_same_conv_map del: upt_Suc)
  finally have ef: "map (\<lambda>(k, u, f). (k, f)) (entries (index_file ?s)) =
           map (\<lambda>k. (k, page_name k)) ?ks" .
  from m len d ef eu di vi show ?thesis by blast
qed

theorem content_files_consecutive_witness:
  "content_run plain_urllib ''http://example.com'' 5 content_site = Some content_site_end \<and>
   list_all disk_ok content_site \<and>
   \<not> distinct (fissued content_site_end) \<and>
   pages_crawled (fspider content_site_end) = 2 \<and>
   map fst (page_files (fspider content_site_end)) =
     map page_name [1..<Suc (pages_crawled (fspider content_site_end))] \<and>
   map fst (page_files (fspider content_site_end)) = [''page_1.txt'', ''page_2.txt''] \<and>
   length (page_files (fspider content_site_end)) = pages_crawled (fspider content_site_end) \<and>
   distinct (map (\<lambda>(f, c). content_url c) (page_files (fspider content_site_end)))"
proof -
  have ok: "list_all disk_ok content_site"
    by (simp add: content_site_def good_disk_def)
  have "\<not> distinct (fissued content_site_end)"
    by (simp add: content_site_values)
  with content_files_consecutive[OF content_site_crawl ok] content_site_crawl ok content_site_values
  show ?thesis by blast
qed

text \<open>
  C4, as stated, fails: after the extraction of the seed page has failed and been logged, its
  URL is not in \<open>visited_urls\<close>.
\<close>

theorem broken_page_counterexample:
  "content_run plain_urllib ''http://example.com'' 5 broken_page = Some broken_page_end \<and>
   error_log (fspider broken_page_end) = [Extraction_error ''http://example.com'' ''not text''] \<and>
   ''http://example.com'' \<notin> visited_urls (fspider broken_page_end)"
  using broken_page_crawl broken_page_values by simp

text \<open>
  C4, amended: when \<^verbatim>\<open>extract_content\<close> fails for a page that \<^verbatim>\<open>parse\<close> takes up, the
  failure is logged, \<open>visited_urls\<close> is unchanged (the URL is not marked visited), no page
  file and no index entry is written, the page count stays, no request is yielded and the
  crawl is not closed.
\<close>

theorem extraction_failure:
  assumes "int (pages_crawled s) < page_limit s" "resp_url r \<notin> visited_urls s"
    and "snd (extract_content L r s) = None"
  shows "\<exists>e s'. FastSpider_parse L r d s = (s', [], None) \<and>
           error_log s' = error_log s @ [Extraction_error (resp_url r) e] \<and>
           visited_urls s' = visited_urls s \<and> resp_url r \<notin> visited_urls s' \<and>
           pages_crawled s' = pages_crawled s \<and> page_files s' = page_files s \<and>
           index_file s' = index_file s"
proof -
  obtain s1 where e: "extract_content L r s = (s1, None)"
    using assms(3) by (cases "extract_content L r s") auto
  from extract_content_cases[OF e] obtain x where
    s1: "s1 = s\<lparr> error_log := error_log s @ [Extraction_error (resp_url r) x] \<rparr>" by auto
  from assms(1,2) e have "FastSpider_parse L r d s = (s1, [], None)"
    by (simp add: FastSpider_parse_def)
  with s1 assms(2) show ?thesis by simp
qed

theorem extraction_failure_witness:
  "int (pages_crawled fresh_spider) < page_limit fresh_spider \<and>
   resp_url not_text \<notin> visited_urls fresh_spider \<and>
   snd (extract_content plain_urllib not_text fresh_spider) = None \<and>
   (\<exists>e s'. FastSpider_parse plain_urllib not_text good_disk fresh_spider = (s', [], None) \<and>
           error_log s' = error_log fresh_spider @ [Extraction_error (resp_url not_text) e] \<and>
           visited_urls s' = visited_urls fresh_spider \<and> resp_url not_text \<notin> visited_urls s' \<and>
           pages_crawled s' = pages_crawled fresh_spider \<and> page_files s' = page_files fresh_spider \<and>
           index_file s' = index_file fresh_spider)"
proof -
  have a: "int (pages_crawled fresh_spider) < page_limit fresh_spider"
    by (simp add: fresh_spider_def FastSpider_init_def plain_urllib_def)
  have b: "resp_url not_text \<notin> visited_urls fresh_spider"
    by (simp add: fresh_spider_def FastSpider_init_def plain_urllib_def)
  have c: "snd (extract_content plain_urllib not_text fresh_spider) = None"
    by (simp add: extract_content_def not_text_def)
  from extraction_failure[OF a b c] a b c show ?thesis by blast
qed




end
